theory Spec2Isabelle
  imports Main "HOL-Library.Char_ord" "HOL-Library.List_Lexorder"
begin

section \<open>Data model of sync_firebase.py\<close>

text \<open>
  Timestamps are Python strings, compared by the program with the comparison operators
  of \<open>str\<close>: the lexicographic order on code points, which on \<open>string\<close> is the order
  of \<open>List_Lexorder\<close> over \<open>Char_ord\<close>.

  A raw sample is one element of the \<open>data\<close> array of a response: a JSON object with
  the string fields \<open>created_at\<close> and \<open>value\<close> (section 6 of the specification).
\<close>

record sample =
  created_at :: string
  value_str :: string

text \<open>
  What \<open>json.loads\<close> returns: a Python value. Floats are carried around but never
  computed with, so their type is left opaque. A dict is the association list of its
  items (looked up with \<open>map_of\<close>).
\<close>

typedecl pyfloat

datatype pyval =
    PyNone
  | PyBool bool
  | PyInt int
  | PyFloat pyfloat
  | PyStr string
  | PyList "pyval list"
  | PyDict "(string \<times> pyval) list"

datatype error = JSONDecodeError | KeyError string | TypeError

text \<open>The dict written under each key of \<open>/sensor_data\<close> (lines 57-62).\<close>

record sensor_record =
  rec_created_at :: string
  temperature :: pyval
  humidity :: pyval
  soil :: pyval

text \<open>The \<open>/sensor_data\<close> node of the database: child key to stored record.\<close>

type_synonym store = "string \<rightharpoonup> sensor_record"

text \<open>
  The query string of one request to \<open>/history\<close> (lines 37-43), a response
  (\<open>None\<close>: the JSON body has no \<open>data\<close> field; \<open>Some d\<close>: its \<open>data\<close> array), and the
  remote source. The source is outside the program and may answer the same request
  differently each time, so it is a function of the number of requests already made in
  this run and of the request. The requests of a run and their responses are kept in a
  log, which is the only effect of \<open>fetch_batch\<close>.

  A request that fails inside the \<open>requests\<close> library (no connection, a body that is not
  JSON) raises there and ends the run at that point; the program has no handler for it and
  such answers are not among the responses modelled here.
\<close>

record params =
  feed :: string
  limit :: nat
  before_created_at :: "string option"

type_synonym response = "sample list option"

type_synonym fetch_log = "(params \<times> response) list"

type_synonym source = "nat \<Rightarrow> params \<Rightarrow> response"

section \<open>Configuration (lines 15-19)\<close>

definition FEED :: string where
  "FEED = ''json''"

definition BATCH_LIMIT :: nat where
  "BATCH_LIMIT = 200"

definition EARLIEST_DATE :: string where
  "EARLIEST_DATE = ''2025-10-01T00:00:00Z''"

section \<open>Helper functions\<close>

text \<open>
  \<open>fetch_batch\<close> (lines 35-46). \<open>if before_timestamp:\<close> is false for \<open>None\<close> and for
  the empty string, so neither puts \<open>before_created_at\<close> into the query.
\<close>

definition fetch_batch :: "source \<Rightarrow> fetch_log \<Rightarrow> string option \<Rightarrow> fetch_log \<times> response" where
  "fetch_batch src log before_timestamp =
     (let ps = \<lparr>feed = FEED, limit = BATCH_LIMIT,
                before_created_at =
                  (case before_timestamp of
                     None \<Rightarrow> None
                   | Some t \<Rightarrow> if t \<noteq> [] then Some t else None)\<rparr>;
          response = src (length log) ps
      in (log @ [(ps, response)], response))"

text \<open>\<open>s.replace(old, new)\<close> for one-character \<open>old\<close> and \<open>new\<close>.\<close>

definition replace :: "char \<Rightarrow> char \<Rightarrow> string \<Rightarrow> string" where
  "replace old new s = map (\<lambda>c. if c = old then new else c) s"

text \<open>
  \<open>sensor_values[k]\<close> for a string \<open>k\<close>: a dict without the key raises KeyError, every
  other value json.loads can return raises TypeError.
\<close>

fun getitem :: "pyval \<Rightarrow> string \<Rightarrow> error + pyval" where
  "getitem (PyDict kvs) k = (case map_of kvs k of None \<Rightarrow> Inl (KeyError k) | Some v \<Rightarrow> Inr v)"
| "getitem _ k = Inl TypeError"

text \<open>Line 54: the child key of a sample, from its \<open>created_at\<close>.\<close>

definition timestamp_key :: "string \<Rightarrow> string" where
  "timestamp_key t = replace (CHR ''.'') (CHR ''-'') (replace (CHR '':'') (CHR ''-'') t)"

text \<open>
  Lines 54-62, the body of the loop of \<open>save_to_firebase\<close> up to the write: the key and
  the record of one sample, or the exception raised on the way. \<open>json.loads\<close> is the
  parameter \<open>loads\<close> (\<open>None\<close>: it raises JSONDecodeError).
\<close>

definition build_record :: "(string \<Rightarrow> pyval option) \<Rightarrow> sample \<Rightarrow> error + (string \<times> sensor_record)" where
  "build_record loads smp =
     (let key = timestamp_key (created_at smp)
      in case loads (value_str smp) of
           None \<Rightarrow> Inl JSONDecodeError
         | Some sensor_values \<Rightarrow>
             (case getitem sensor_values ''temperature'' of
                Inl e \<Rightarrow> Inl e
              | Inr t \<Rightarrow>
                  (case getitem sensor_values ''humidity'' of
                     Inl e \<Rightarrow> Inl e
                   | Inr h \<Rightarrow>
                       (case getitem sensor_values ''soil'' of
                          Inl e \<Rightarrow> Inl e
                        | Inr so \<Rightarrow>
                            Inr (key,
                                 \<lparr>rec_created_at = created_at smp, temperature = t,
                                  humidity = h, soil = so\<rparr>)))))"

text \<open>
  \<open>save_to_firebase\<close> (lines 48-70). The loop carries the database and \<open>saved_count\<close>.
  An exception leaves the loop at once; the writes made before it stay in the database,
  so the database is returned beside the outcome (\<open>Inl\<close> the exception, \<open>Inr\<close> the
  returned count).
\<close>

fun save_loop :: "(string \<Rightarrow> pyval option) \<Rightarrow> store \<Rightarrow> nat \<Rightarrow> sample list \<Rightarrow> store \<times> (error + nat)" where
  "save_loop loads ref saved_count [] = (ref, Inr saved_count)"
| "save_loop loads ref saved_count (smp # rest) =
     (case build_record loads smp of
        Inl e \<Rightarrow> (ref, Inl e)
      | Inr (key, rcd) \<Rightarrow>
          save_loop loads (ref(key \<mapsto> rcd)) (saved_count + 1) rest)"

definition save_to_firebase :: "(string \<Rightarrow> pyval option) \<Rightarrow> store \<Rightarrow> sample list \<Rightarrow> store \<times> (error + nat)" where
  "save_to_firebase loads ref data_list = save_loop loads ref 0 data_list"

section \<open>Mode A: download_all_data (lines 72-138)\<close>

text \<open>
  The variables of the loop, and the log of requests. Each \<open>break\<close> is named after the
  line it stands on; the messages printed before them tell them apart in the program.
\<close>

record loop_state =
  all_data :: "sample list"
  previous_oldest :: "string option"
  batch_count :: nat
  stuck_count :: nat
  requests :: fetch_log

datatype exit_reason =
    BreakEmpty      \<comment> \<open>line 92, \<open>if not all_data\<close>\<close>
  | BreakStuck      \<comment> \<open>line 100, "No more older data available"\<close>
  | BreakEarliest   \<comment> \<open>line 109, "Reached earliest date limit: ..."\<close>
  | BreakPartial    \<comment> \<open>line 126, "Reached earliest date limit"\<close>
  | BreakNoNew      \<comment> \<open>line 129, "No new data in batch"\<close>
  | BreakNoMore     \<comment> \<open>line 132, "No more data available"\<close>
  | BreakSafety     \<comment> \<open>line 136, "Safety limit reached"\<close>

text \<open>
  One pass through the body of \<open>while True\<close> (lines 91-136): \<open>Inl\<close> is a \<open>break\<close> with
  the state it leaves, \<open>Inr\<close> the state at the start of the next pass.
\<close>

definition loop_body :: "source \<Rightarrow> loop_state \<Rightarrow> (exit_reason \<times> loop_state) + loop_state" where
  "loop_body src st =
     (if all_data st = [] then Inl (BreakEmpty, st)
      else
        let before_timestamp = created_at (last (all_data st));
            same = (Some before_timestamp = previous_oldest st)
        in
          if same \<and> stuck_count st + 1 \<ge> 2
          then Inl (BreakStuck, st\<lparr>stuck_count := stuck_count st + 1\<rparr>)
          else
            let st1 = st\<lparr>stuck_count := (if same then stuck_count st + 1 else 0),
                        previous_oldest := Some before_timestamp\<rparr>
            in
              if before_timestamp \<le> EARLIEST_DATE
              then Inl (BreakEarliest,
                        st1\<lparr>all_data := filter (\<lambda>s. created_at s \<ge> EARLIEST_DATE) (all_data st1)\<rparr>)
              else
                let (log, response) = fetch_batch src (requests st1) (Some before_timestamp);
                    st2 = st1\<lparr>requests := log\<rparr>
                in
                  case response of
                    None \<Rightarrow> Inl (BreakNoMore, st2)
                  | Some d \<Rightarrow>
                      if length d > 0 then
                        let st3 = st2\<lparr>batch_count := batch_count st2 + 1\<rparr>;
                            filtered_batch =
                              filter (\<lambda>s. created_at s \<ge> EARLIEST_DATE
                                          \<and> created_at s < before_timestamp) d
                        in
                          if filtered_batch \<noteq> [] then
                            let st4 = st3\<lparr>all_data := all_data st3 @ filtered_batch\<rparr>
                            in
                              if length filtered_batch < length d then Inl (BreakPartial, st4)
                              else if batch_count st4 > 1000 then Inl (BreakSafety, st4)
                              else Inr st4
                          else Inl (BreakNoNew, st3)
                      else Inl (BreakNoMore, st2))"

text \<open>
  The loop. Every pass that does not break has raised \<open>batch_count\<close> and found it at most
  1000, which is the measure of termination.
\<close>

function dl_loop :: "source \<Rightarrow> loop_state \<Rightarrow> exit_reason \<times> loop_state" where
  "dl_loop src st = (case loop_body src st of Inl r \<Rightarrow> r | Inr st' \<Rightarrow> dl_loop src st')"
  by pat_completeness auto
termination
  by (relation "measure (\<lambda>(src, st). 1001 - batch_count st)")
     (auto simp: loop_body_def Let_def split: if_splits prod.splits option.splits)

text \<open>The state in which the loop is entered (lines 75-88), after the first fetch.\<close>

definition initial_state :: "fetch_log \<Rightarrow> sample list \<Rightarrow> loop_state" where
  "initial_state log d =
     \<lparr>all_data = d, previous_oldest = None, batch_count = 1, stuck_count = 0, requests = log\<rparr>"

text \<open>
  \<open>download_all_data\<close>: the requests made and the list returned.
\<close>

definition download_all_data :: "source \<Rightarrow> fetch_log \<times> sample list" where
  "download_all_data src =
     (let (log, response) = fetch_batch src [] None
      in case response of
           None \<Rightarrow> (log, [])
         | Some d \<Rightarrow>
             (let (r, st) = dl_loop src (initial_state log d)
              in (requests st, all_data st)))"

section \<open>Mode B: download_new_data (lines 140-159)\<close>

text \<open>The \<open>for\<close> loop of lines 151-156, with its early return.\<close>

fun scan_new :: "string \<Rightarrow> sample list \<Rightarrow> sample list \<Rightarrow> sample list" where
  "scan_new latest_timestamp new_data [] = new_data"
| "scan_new latest_timestamp new_data (smp # rest) =
     (if created_at smp > latest_timestamp
      then scan_new latest_timestamp (new_data @ [smp]) rest
      else new_data)"

definition download_new_data :: "source \<Rightarrow> string \<Rightarrow> fetch_log \<times> sample list" where
  "download_new_data src latest_timestamp =
     (let (log, response) = fetch_batch src [] None
      in case response of
           None \<Rightarrow> (log, [])
         | Some d \<Rightarrow> (log, scan_new latest_timestamp [] d))"

section \<open>main (lines 162-203)\<close>

text \<open>
  What a run leaves behind: the requests it made, the database, and how it ended
  (\<open>Inl\<close>: the exception that left \<open>main\<close>; \<open>Inr n\<close>: \<open>main\<close> returned after \<open>n\<close>
  records were saved).

  \<open>latest_timestamp\<close> is the answer of the database to the query of
  \<open>get_latest_timestamp_from_firebase\<close> (\<open>None\<close> when it finds nothing or fails); like
  Python's \<open>if latest_timestamp:\<close>, the empty string counts as absent.
\<close>

record run_result =
  fetched :: fetch_log
  db :: store
  outcome :: "error + nat"

definition main :: "(string \<Rightarrow> pyval option) \<Rightarrow> source \<Rightarrow> string option \<Rightarrow> store \<Rightarrow> run_result" where
  "main loads src latest_timestamp ref =
     (if latest_timestamp \<noteq> None \<and> latest_timestamp \<noteq> Some []
      then
        let (log, new_data) = download_new_data src (the latest_timestamp)
        in if new_data \<noteq> []
           then let (ref', saved) = save_to_firebase loads ref new_data
                in \<lparr>fetched = log, db = ref', outcome = saved\<rparr>
           else \<lparr>fetched = log, db = ref, outcome = Inr 0\<rparr>
      else
        let (log, all_data) = download_all_data src
        in if all_data \<noteq> []
           then let (ref', saved) = save_to_firebase loads ref all_data
                in \<lparr>fetched = log, db = ref', outcome = saved\<rparr>
           else \<lparr>fetched = log, db = ref, outcome = Inr 0\<rparr>)"

section \<open>Notions used by the properties\<close>

text \<open>
  The words of the specification for a sample that decodes: its \<open>value\<close> parses, and the
  parsed value has the fields \<open>temperature\<close>, \<open>humidity\<close> and \<open>soil\<close>.
\<close>

definition has_field :: "pyval \<Rightarrow> string \<Rightarrow> bool" where
  "has_field v k = (case v of PyDict kvs \<Rightarrow> map_of kvs k \<noteq> None | _ \<Rightarrow> False)"

definition decodes :: "(string \<Rightarrow> pyval option) \<Rightarrow> sample \<Rightarrow> bool" where
  "decodes loads smp =
     (case loads (value_str smp) of
        None \<Rightarrow> False
      | Some v \<Rightarrow> has_field v ''temperature'' \<and> has_field v ''humidity'' \<and> has_field v ''soil'')"

text \<open>
  The calls \<open>ref.child(key).set(record)\<close> that \<open>save_to_firebase\<close> makes on a list, in
  order: one for each sample up to the first whose record cannot be built.
\<close>

fun writes :: "(string \<Rightarrow> pyval option) \<Rightarrow> sample list \<Rightarrow> (string \<times> sensor_record) list" where
  "writes loads [] = []"
| "writes loads (smp # rest) =
     (case build_record loads smp of Inl e \<Rightarrow> [] | Inr kr \<Rightarrow> kr # writes loads rest)"

text \<open>Line 94: \<open>before_timestamp\<close>, the \<open>created_at\<close> of the last collected sample.\<close>

definition cursor :: "loop_state \<Rightarrow> string" where
  "cursor st = created_at (last (all_data st))"

text \<open>The query of a fetch with a cursor, and of the first fetch, which has none.\<close>

definition paged :: "string \<Rightarrow> params" where
  "paged c = \<lparr>feed = FEED, limit = BATCH_LIMIT, before_created_at = Some c\<rparr>"

definition newest :: params where
  "newest = \<lparr>feed = FEED, limit = BATCH_LIMIT, before_created_at = None\<rparr>"

text \<open>
  The state in which pass \<open>n + 1\<close> of the loop starts, counted from a given state, when
  the loop gets that far (\<open>None\<close>: it has left through a \<open>break\<close> before).
\<close>

fun state_at :: "source \<Rightarrow> nat \<Rightarrow> loop_state \<Rightarrow> loop_state option" where
  "state_at src 0 st = Some st"
| "state_at src (Suc n) st =
     (case loop_body src st of Inl r \<Rightarrow> None | Inr st' \<Rightarrow> state_at src n st')"

text \<open>
  Two responses "return the same oldest timestamp": both carry records and their last
  (oldest) records have the same \<open>created_at\<close>.
\<close>

definition same_oldest :: "response \<Rightarrow> response \<Rightarrow> bool" where
  "same_oldest r r' =
     (case (r, r') of
        (Some d, Some d') \<Rightarrow> d \<noteq> [] \<and> d' \<noteq> [] \<and> created_at (last d) = created_at (last d')
      | _ \<Rightarrow> False)"

text \<open>A page ordered descending by \<open>created_at\<close>.\<close>

definition descending :: "sample list \<Rightarrow> bool" where
  "descending d = sorted_wrt (\<lambda>a b. created_at b \<le> created_at a) d"

section \<open>Invariants of the loop\<close>

text \<open>
  At the start of every pass the stuck counter is 0 and the cursor is below the cursor of
  the pass before.
\<close>

definition never_stuck :: "loop_state \<Rightarrow> bool" where
  "never_stuck st \<longleftrightarrow>
     stuck_count st = 0
     \<and> (case previous_oldest st of None \<Rightarrow> True | Some p \<Rightarrow> all_data st \<noteq> [] \<and> cursor st < p)"

text \<open>
  Every collected sample is at or above the date floor, or at or above the cursor (which
  holds for a descending first page before the first pass has compared the cursor with
  the floor).
\<close>

definition floor_inv :: "loop_state \<Rightarrow> bool" where
  "floor_inv st \<longleftrightarrow>
     never_stuck st
     \<and> (\<forall>x\<in>set (all_data st). EARLIEST_DATE \<le> created_at x \<or> cursor st \<le> created_at x)"

text \<open>
  No two consecutive responses in the log have the same oldest timestamp, and the last
  response is the page whose oldest record is the cursor.
\<close>

definition no_repeat :: "fetch_log \<Rightarrow> bool" where
  "no_repeat log \<longleftrightarrow> (\<forall>j. Suc j < length log \<longrightarrow> \<not> same_oldest (snd (log ! j)) (snd (log ! Suc j)))"

definition log_inv :: "loop_state \<Rightarrow> bool" where
  "log_inv st \<longleftrightarrow>
     no_repeat (requests st)
     \<and> (all_data st \<noteq> [] \<longrightarrow>
          requests st \<noteq> []
          \<and> (\<exists>d. snd (last (requests st)) = Some d \<and> d \<noteq> [] \<and> created_at (last d) = cursor st))"

section \<open>Example data\<close>

text \<open>
  Three samples (the last one older than \<open>EARLIEST_DATE\<close>), a source that answers the
  first fetch with one page, the second with an older page and every later one without
  \<open>data\<close>, and the state of the loop after the first pass against that source.
\<close>

abbreviation ex_A :: sample where
  "ex_A \<equiv> \<lparr>created_at = ''2025-11-02T00:00:00Z'', value_str = ''ok''\<rparr>"

abbreviation ex_B :: sample where
  "ex_B \<equiv> \<lparr>created_at = ''2025-11-01T00:00:00Z'', value_str = ''ok''\<rparr>"

abbreviation ex_old :: sample where
  "ex_old \<equiv> \<lparr>created_at = ''2025-09-30T00:00:00Z'', value_str = ''ok''\<rparr>"

abbreviation ex_source :: source where
  "ex_source \<equiv> \<lambda>n ps. if n = 0 then Some [ex_A] else if n = Suc 0 then Some [ex_B] else None"

abbreviation ex_state :: loop_state where
  "ex_state \<equiv> \<lparr>all_data = [ex_A, ex_B], previous_oldest = Some ''2025-11-02T00:00:00Z'',
      batch_count = 2, stuck_count = 0,
      requests = [(newest, Some [ex_A]), (paged ''2025-11-02T00:00:00Z'', Some [ex_B])]\<rparr>"

text \<open>
  A newest page of 201 records, newest first, each newer than \<open>2025-11-01T00:00:00Z\<close> and
  each with a key of its own: one more record than the \<open>limit\<close> of the request.
\<close>

abbreviation ex_long_page :: "sample list" where
  "ex_long_page \<equiv>
     map (\<lambda>n. \<lparr>created_at = CHR ''9'' # replicate n (CHR ''9''), value_str = ''ok''\<rparr>) (rev [0..<201])"

section \<open>Facts about save_to_firebase\<close>

lemma getitem_cases: "(\<exists>x. getitem v k = Inr x \<and> has_field v k) \<or> (\<exists>e. getitem v k = Inl e \<and> \<not> has_field v k)"
  by (cases v) (auto simp: has_field_def split: option.splits)

lemma build_record_Inr_iff: "(\<exists>kr. build_record loads smp = Inr kr) \<longleftrightarrow> decodes loads smp"
proof (cases "loads (value_str smp)")
  case None
  then show ?thesis by (simp add: build_record_def decodes_def)
next
  case (Some v)
  from getitem_cases [of v "''temperature''"] getitem_cases [of v "''humidity''"]
    getitem_cases [of v "''soil''"] Some
  show ?thesis
    by (auto simp add: build_record_def decodes_def)
qed

lemma build_record_Inl_iff: "(\<exists>e. build_record loads smp = Inl e) \<longleftrightarrow> \<not> decodes loads smp"
  using build_record_Inr_iff [of loads smp] by (cases "build_record loads smp") auto

lemma build_record_key:
  "build_record loads smp = Inr (k, r) \<Longrightarrow> k = timestamp_key (created_at smp) \<and> rec_created_at r = created_at smp"
  by (auto simp: build_record_def Let_def split: option.splits sum.splits)

lemma scan_new_takeWhile:
  "scan_new t acc d = acc @ takeWhile (\<lambda>s. t < created_at s) d"
  by (induction d arbitrary: acc) auto

lemma upd_map_add: "m(k \<mapsto> r) ++ w = m ++ ([k \<mapsto> r] ++ w)"
  by (rule ext) (simp add: map_add_def split: option.splits)

lemma save_loop_store:
  "fst (save_loop loads ref n xs) = ref ++ map_of (rev (writes loads xs))"
proof (induction xs arbitrary: ref n)
  case Nil
  show ?case by simp
next
  case (Cons x xs)
  show ?case
  proof (cases "build_record loads x")
    case (Inl e)
    then show ?thesis by simp
  next
    case (Inr kr)
    obtain k r where kr: "kr = (k, r)" by (cases kr)
    have "fst (save_loop loads ref n (x # xs)) = fst (save_loop loads (ref(k \<mapsto> r)) (n + 1) xs)"
      using Inr kr by simp
    also have "\<dots> = ref(k \<mapsto> r) ++ map_of (rev (writes loads xs))"
      by (rule Cons.IH)
    also have "\<dots> = ref ++ ([k \<mapsto> r] ++ map_of (rev (writes loads xs)))"
      by (rule upd_map_add)
    also have "[k \<mapsto> r] ++ map_of (rev (writes loads xs)) = map_of (rev (writes loads (x # xs)))"
      using Inr kr by simp
    finally show ?thesis .
  qed
qed

lemma save_loop_append:
  "save_loop loads ref n (xs @ ys) =
     (case save_loop loads ref n xs of
        (ref', Inl e) \<Rightarrow> (ref', Inl e)
      | (ref', Inr m) \<Rightarrow> save_loop loads ref' m ys)"
  by (induction xs arbitrary: ref n) (auto split: sum.splits prod.splits)

lemma save_loop_count:
  "\<forall>s\<in>set xs. decodes loads s \<Longrightarrow> snd (save_loop loads ref n xs) = Inr (n + length xs)"
proof (induction xs arbitrary: ref n)
  case Nil
  show ?case by simp
next
  case (Cons x xs)
  from Cons.prems have "decodes loads x" by simp
  then obtain k r where "build_record loads x = Inr (k, r)"
    using build_record_Inr_iff [of loads x] by auto
  with Cons show ?case by simp
qed

lemma writes_all:
  "\<forall>s\<in>set xs. decodes loads s \<Longrightarrow> map fst (writes loads xs) = map (\<lambda>s. timestamp_key (created_at s)) xs"
proof (induction xs)
  case Nil
  show ?case by simp
next
  case (Cons x xs)
  from Cons.prems have "decodes loads x" by simp
  then obtain k r where "build_record loads x = Inr (k, r)"
    using build_record_Inr_iff [of loads x] by auto
  with Cons build_record_key [of loads x k r] show ?case by simp
qed

lemma writes_subset:
  "(k, r) \<in> set (writes loads xs) \<Longrightarrow> \<exists>s\<in>set xs. build_record loads s = Inr (k, r)"
  by (induction xs) (auto split: sum.splits)

lemma save_loop_changed:
  assumes "fst (save_loop loads ref n xs) k \<noteq> ref k"
  shows "\<exists>s\<in>set xs. \<exists>r. build_record loads s = Inr (k, r) \<and> fst (save_loop loads ref n xs) k = Some r"
proof -
  from assms obtain r where r: "map_of (rev (writes loads xs)) k = Some r"
    by (auto simp: save_loop_store map_add_def split: option.splits)
  then have "(k, r) \<in> set (writes loads xs)"
    by (auto dest: map_of_SomeD)
  then obtain s where "s \<in> set xs" "build_record loads s = Inr (k, r)"
    using writes_subset by blast
  with r show ?thesis by (auto simp: save_loop_store map_add_def)
qed

lemma save_loop_dom:
  "\<forall>s\<in>set xs. decodes loads s \<Longrightarrow>
     dom (fst (save_loop loads ref n xs)) = dom ref \<union> (\<lambda>s. timestamp_key (created_at s)) ` set xs"
proof -
  assume a: "\<forall>s\<in>set xs. decodes loads s"
  have "dom (map_of (rev (writes loads xs))) = fst ` set (writes loads xs)"
    by (simp add: dom_map_of_conv_image_fst)
  also have "\<dots> = set (map fst (writes loads xs))" by simp
  also have "\<dots> = (\<lambda>s. timestamp_key (created_at s)) ` set xs"
    by (simp add: writes_all [OF a])
  finally show ?thesis by (auto simp: save_loop_store)
qed


lemma writes_length: "length (writes loads xs) \<le> length xs"
  by (induction xs) (auto split: sum.splits)

lemma save_loop_outcome_indep:
  "snd (save_loop loads ref n xs) = snd (save_loop loads ref' n xs)"
  by (induction xs arbitrary: ref ref' n) (auto split: sum.splits)

lemma map_add_twice: "(m ++ w) ++ w = m ++ (w :: 'a \<rightharpoonup> 'b)"
  by (rule ext) (simp add: map_add_def split: option.splits)

lemma save_loop_count_le:
  "snd (save_loop loads ref n xs) = Inr m \<Longrightarrow> m \<le> n + length xs"
proof (induction xs arbitrary: ref n)
  case Nil
  then show ?case by simp
next
  case (Cons x xs)
  show ?case
  proof (cases "build_record loads x")
    case (Inl e)
    with Cons.prems show ?thesis by simp
  next
    case (Inr kr)
    obtain k r where kr: "kr = (k, r)" by (cases kr)
    from Cons.prems Inr kr have "snd (save_loop loads (ref(k \<mapsto> r)) (n + 1) xs) = Inr m"
      by simp
    from Cons.IH [OF this] show ?thesis by simp
  qed
qed

lemma save_to_firebase_twice:
  "save_to_firebase loads (fst (save_to_firebase loads ref xs)) xs = save_to_firebase loads ref xs"
proof (rule prod_eqI)
  show "fst (save_to_firebase loads (fst (save_to_firebase loads ref xs)) xs)
          = fst (save_to_firebase loads ref xs)"
    by (simp add: save_to_firebase_def save_loop_store map_add_twice)
  show "snd (save_to_firebase loads (fst (save_to_firebase loads ref xs)) xs)
          = snd (save_to_firebase loads ref xs)"
    unfolding save_to_firebase_def by (rule save_loop_outcome_indep)
qed

lemma main_mode_a:
  "main loads src None ref =
     \<lparr>fetched = fst (download_all_data src),
      db = fst (save_to_firebase loads ref (snd (download_all_data src))),
      outcome = snd (save_to_firebase loads ref (snd (download_all_data src)))\<rparr>"
  by (cases "download_all_data src")
     (simp add: main_def save_to_firebase_def split: prod.splits)

lemma main_mode_b:
  "T \<noteq> [] \<Longrightarrow> main loads src (Some T) ref =
     \<lparr>fetched = fst (download_new_data src T),
      db = fst (save_to_firebase loads ref (snd (download_new_data src T))),
      outcome = snd (save_to_firebase loads ref (snd (download_new_data src T)))\<rparr>"
  by (cases "download_new_data src T")
     (simp add: main_def save_to_firebase_def split: prod.splits)

section \<open>Incremental mode\<close>

text \<open>
  C1. In incremental mode with watermark \<open>T\<close> (non-empty, so that \<open>main\<close> takes the
  incremental branch), when the newest page is \<open>page\<close>: \<open>download_new_data\<close> returns
  exactly the longest prefix of the page whose records are strictly newer than \<open>T\<close>,
  the scan stopping at the first record with \<open>created_at \<le> T\<close>; that prefix, and nothing
  else, is handed to \<open>save_to_firebase\<close>; when its samples decode, one record per sample
  is written, under the keys of the prefix. For a page that starts with three records
  newer than \<open>T\<close> followed by one that is not (such as \<open>[T+3, T+2, T+1, T, T-1]\<close>), the
  prefix is those three records. If no record of the page is newer than \<open>T\<close>, nothing is
  written: the database is unchanged.
\<close>

theorem C1_incremental_boundary:
  assumes "T \<noteq> []"
    and "src 0 \<lparr>feed = FEED, limit = BATCH_LIMIT, before_created_at = None\<rparr> = Some page"
  shows "snd (download_new_data src T) = takeWhile (\<lambda>s. T < created_at s) page
       \<and> db (main loads src (Some T) ref)
           = fst (save_to_firebase loads ref (takeWhile (\<lambda>s. T < created_at s) page))
       \<and> outcome (main loads src (Some T) ref)
           = snd (save_to_firebase loads ref (takeWhile (\<lambda>s. T < created_at s) page))
       \<and> ((\<forall>s\<in>set page. decodes loads s) \<longrightarrow>
            outcome (main loads src (Some T) ref)
              = Inr (length (takeWhile (\<lambda>s. T < created_at s) page))
          \<and> dom (db (main loads src (Some T) ref))
              = dom ref \<union> (\<lambda>s. timestamp_key (created_at s)) ` set (takeWhile (\<lambda>s. T < created_at s) page))
       \<and> (\<forall>a b c d rest. page = a # b # c # d # rest \<and> T < created_at a \<and> T < created_at b
              \<and> T < created_at c \<and> created_at d \<le> T
            \<longrightarrow> snd (download_new_data src T) = [a, b, c])
       \<and> ((\<forall>s\<in>set page. \<not> T < created_at s) \<longrightarrow>
            db (main loads src (Some T) ref) = ref \<and> outcome (main loads src (Some T) ref) = Inr 0
          \<and> writes loads (snd (download_new_data src T)) = [])"
proof -
  let ?new = "takeWhile (\<lambda>s. T < created_at s) page"
  have dl: "download_new_data src T
              = ([(\<lparr>feed = FEED, limit = BATCH_LIMIT, before_created_at = None\<rparr>, Some page)], ?new)"
    using assms(2) by (simp add: download_new_data_def fetch_batch_def Let_def scan_new_takeWhile)
  have save_nil: "save_to_firebase loads ref [] = (ref, Inr 0)"
    by (simp add: save_to_firebase_def)
  have m_db: "db (main loads src (Some T) ref) = fst (save_to_firebase loads ref ?new)"
    using assms(1) dl save_nil by (simp add: main_def split: prod.splits)
  have m_out: "outcome (main loads src (Some T) ref) = snd (save_to_firebase loads ref ?new)"
    using assms(1) dl save_nil by (simp add: main_def split: prod.splits)
  have dec: "(\<forall>s\<in>set page. decodes loads s) \<longrightarrow>
               snd (save_to_firebase loads ref ?new) = Inr (length ?new)
             \<and> dom (fst (save_to_firebase loads ref ?new))
                 = dom ref \<union> (\<lambda>s. timestamp_key (created_at s)) ` set ?new"
  proof
    assume a: "\<forall>s\<in>set page. decodes loads s"
    have "\<forall>s\<in>set ?new. decodes loads s"
      using a by (auto dest: set_takeWhileD)
    then show "snd (save_to_firebase loads ref ?new) = Inr (length ?new)
             \<and> dom (fst (save_to_firebase loads ref ?new))
                 = dom ref \<union> (\<lambda>s. timestamp_key (created_at s)) ` set ?new"
      using save_loop_count [of ?new loads ref 0] save_loop_dom [of ?new loads ref 0]
      by (simp add: save_to_firebase_def)
  qed
  have none: "(\<forall>s\<in>set page. \<not> T < created_at s) \<longrightarrow> ?new = []"
    by (cases page) auto
  have ex: "\<forall>a b c d rest. page = a # b # c # d # rest \<and> T < created_at a \<and> T < created_at b
              \<and> T < created_at c \<and> created_at d \<le> T \<longrightarrow> ?new = [a, b, c]"
    by auto
  show ?thesis
    using dl m_db m_out dec none ex save_nil by simp
qed

theorem C1_incremental_boundary_witness:
  "snd (download_new_data
         (\<lambda>n ps. Some [\<lparr>created_at = ''2025-11-01T00:00:06Z'', value_str = ''ok''\<rparr>,
                       \<lparr>created_at = ''2025-11-01T00:00:05Z'', value_str = ''ok''\<rparr>,
                       \<lparr>created_at = ''2025-11-01T00:00:04Z'', value_str = ''ok''\<rparr>,
                       \<lparr>created_at = ''2025-11-01T00:00:03Z'', value_str = ''ok''\<rparr>,
                       \<lparr>created_at = ''2025-11-01T00:00:02Z'', value_str = ''ok''\<rparr>])
         ''2025-11-01T00:00:03Z'')
     = [\<lparr>created_at = ''2025-11-01T00:00:06Z'', value_str = ''ok''\<rparr>,
        \<lparr>created_at = ''2025-11-01T00:00:05Z'', value_str = ''ok''\<rparr>,
        \<lparr>created_at = ''2025-11-01T00:00:04Z'', value_str = ''ok''\<rparr>]"
  using C1_incremental_boundary
    [of "''2025-11-01T00:00:03Z''"
        "\<lambda>n ps. Some [\<lparr>created_at = ''2025-11-01T00:00:06Z'', value_str = ''ok''\<rparr>,
                       \<lparr>created_at = ''2025-11-01T00:00:05Z'', value_str = ''ok''\<rparr>,
                       \<lparr>created_at = ''2025-11-01T00:00:04Z'', value_str = ''ok''\<rparr>,
                       \<lparr>created_at = ''2025-11-01T00:00:03Z'', value_str = ''ok''\<rparr>,
                       \<lparr>created_at = ''2025-11-01T00:00:02Z'', value_str = ''ok''\<rparr>]"
        "[\<lparr>created_at = ''2025-11-01T00:00:06Z'', value_str = ''ok''\<rparr>,
                       \<lparr>created_at = ''2025-11-01T00:00:05Z'', value_str = ''ok''\<rparr>,
                       \<lparr>created_at = ''2025-11-01T00:00:04Z'', value_str = ''ok''\<rparr>,
                       \<lparr>created_at = ''2025-11-01T00:00:03Z'', value_str = ''ok''\<rparr>,
                       \<lparr>created_at = ''2025-11-01T00:00:02Z'', value_str = ''ok''\<rparr>]"]
  by simp

text \<open>
  C10, as amended. An incremental run (non-empty watermark \<open>T\<close>) makes exactly one
  request, without a cursor, whatever \<open>T\<close> is. The samples it keeps are samples of that
  page newer than \<open>T\<close>, and every entry of the database that the run changes is the
  record of such a sample: a record that is not in the newest page is not written. The run
  makes at most as many writes as the page has records; that is at most 200, the \<open>limit\<close>
  that was requested (\<open>BATCH_LIMIT\<close>), when the page holds no more records than that.
\<close>

theorem C10_single_fetch:
  assumes "T \<noteq> []"
  shows "fetched (main loads src (Some T) ref)
           = [(\<lparr>feed = FEED, limit = BATCH_LIMIT, before_created_at = None\<rparr>,
               src 0 \<lparr>feed = FEED, limit = BATCH_LIMIT, before_created_at = None\<rparr>)]
       \<and> length (fetched (main loads src (Some T) ref)) = 1
       \<and> set (snd (download_new_data src T))
           \<subseteq> (case src 0 \<lparr>feed = FEED, limit = BATCH_LIMIT, before_created_at = None\<rparr> of
                None \<Rightarrow> {} | Some page \<Rightarrow> {s \<in> set page. T < created_at s})
       \<and> (\<forall>k. db (main loads src (Some T) ref) k \<noteq> ref k \<longrightarrow>
            (\<exists>page s r. src 0 \<lparr>feed = FEED, limit = BATCH_LIMIT, before_created_at = None\<rparr> = Some page
                \<and> s \<in> set page \<and> T < created_at s \<and> build_record loads s = Inr (k, r)
                \<and> db (main loads src (Some T) ref) k = Some r))
       \<and> (\<forall>page. src 0 \<lparr>feed = FEED, limit = BATCH_LIMIT, before_created_at = None\<rparr> = Some page
                \<longrightarrow> length (writes loads (snd (download_new_data src T))) \<le> length page)
       \<and> ((\<forall>page. src 0 \<lparr>feed = FEED, limit = BATCH_LIMIT, before_created_at = None\<rparr> = Some page
                \<longrightarrow> length page \<le> BATCH_LIMIT) \<longrightarrow>
            length (writes loads (snd (download_new_data src T))) \<le> 200
          \<and> (\<forall>n. outcome (main loads src (Some T) ref) = Inr n \<longrightarrow> n \<le> 200))"
proof -
  let ?ps = "\<lparr>feed = FEED, limit = BATCH_LIMIT, before_created_at = None\<rparr>"
  let ?new = "snd (download_new_data src T)"
  have log: "fst (download_new_data src T) = [(?ps, src 0 ?ps)]"
    by (simp add: download_new_data_def fetch_batch_def Let_def split: option.splits)
  have new: "?new = (case src 0 ?ps of None \<Rightarrow> [] | Some page \<Rightarrow> takeWhile (\<lambda>s. T < created_at s) page)"
    by (simp add: download_new_data_def fetch_batch_def Let_def scan_new_takeWhile split: option.splits)
  have sub: "set ?new \<subseteq> (case src 0 ?ps of None \<Rightarrow> {} | Some page \<Rightarrow> {s \<in> set page. T < created_at s})"
    unfolding new by (auto split: option.splits dest: set_takeWhileD)
  have chg: "\<exists>page s r. src 0 ?ps = Some page \<and> s \<in> set page \<and> T < created_at s
                \<and> build_record loads s = Inr (k, r) \<and> db (main loads src (Some T) ref) k = Some r"
    if "db (main loads src (Some T) ref) k \<noteq> ref k" for k
  proof -
    from that have "fst (save_loop loads ref 0 ?new) k \<noteq> ref k"
      using assms by (simp add: main_mode_b save_to_firebase_def)
    from save_loop_changed [OF this] obtain s r where
      s: "s \<in> set ?new" "build_record loads s = Inr (k, r)" "fst (save_loop loads ref 0 ?new) k = Some r"
      by blast
    from s(1) sub obtain page where "src 0 ?ps = Some page" "s \<in> set page" "T < created_at s"
      by (auto split: option.splits)
    with s assms show ?thesis
      by (auto simp: main_mode_b save_to_firebase_def)
  qed
  have lim: "length (writes loads ?new) \<le> 200 \<and> (\<forall>n. outcome (main loads src (Some T) ref) = Inr n \<longrightarrow> n \<le> 200)"
    if h: "\<forall>page. src 0 ?ps = Some page \<longrightarrow> length page \<le> BATCH_LIMIT"
  proof -
    have len: "length ?new \<le> 200"
    proof (cases "src 0 ?ps")
      case None
      then show ?thesis by (simp add: new)
    next
      case (Some page)
      have "length (takeWhile (\<lambda>s. T < created_at s) page) \<le> length page"
        by (rule length_takeWhile_le)
      with h Some show ?thesis by (simp add: new BATCH_LIMIT_def)
    qed
    have w: "length (writes loads ?new) \<le> 200"
      using writes_length [of loads ?new] len by linarith
    have "n \<le> 200" if "outcome (main loads src (Some T) ref) = Inr n" for n
    proof -
      from that assms have "snd (save_loop loads ref 0 ?new) = Inr n"
        by (simp add: main_mode_b save_to_firebase_def)
      then have "n \<le> 0 + length ?new"
        by (rule save_loop_count_le)
      with len show ?thesis by simp
    qed
    with w show ?thesis by blast
  qed
  have pg: "length (writes loads ?new) \<le> length page" if "src 0 ?ps = Some page" for page
  proof -
    have "length (takeWhile (\<lambda>s. T < created_at s) page) \<le> length page"
      by (rule length_takeWhile_le)
    with that writes_length [of loads ?new] show ?thesis by (simp add: new)
  qed
  show ?thesis
    using log sub chg lim pg assms by (simp add: main_mode_b)
qed

theorem C10_single_fetch_witness:
  "''2025-11-01T00:00:03Z'' \<noteq> []
   \<and> length (fetched (main (\<lambda>v. None)
         (\<lambda>n ps. Some [\<lparr>created_at = ''2025-11-01T00:00:06Z'', value_str = ''ok''\<rparr>,
                       \<lparr>created_at = ''2025-11-01T00:00:02Z'', value_str = ''ok''\<rparr>])
         (Some ''2025-11-01T00:00:03Z'') Map.empty)) = 1
   \<and> set (snd (download_new_data
         (\<lambda>n ps. Some [\<lparr>created_at = ''2025-11-01T00:00:06Z'', value_str = ''ok''\<rparr>,
                       \<lparr>created_at = ''2025-11-01T00:00:02Z'', value_str = ''ok''\<rparr>])
         ''2025-11-01T00:00:03Z''))
       \<subseteq> {\<lparr>created_at = ''2025-11-01T00:00:06Z'', value_str = ''ok''\<rparr>}"
  using C10_single_fetch
    [of "''2025-11-01T00:00:03Z''" "\<lambda>v. None"
        "\<lambda>n ps. Some [\<lparr>created_at = ''2025-11-01T00:00:06Z'', value_str = ''ok''\<rparr>,
                       \<lparr>created_at = ''2025-11-01T00:00:02Z'', value_str = ''ok''\<rparr>]"
        Map.empty]
  by auto

text \<open>
  With the bound of 200 writes for every run, C10 fails: \<open>download_new_data\<close> keeps
  every record of the page that is newer than the watermark (lines 151-156) and the
  program nowhere cuts the page down to \<open>BATCH_LIMIT\<close>. Against a source that answers the
  one request with the page of 201 records, the run saves 201 records under 201 keys.
\<close>

theorem C10_counterexample:
  "length ex_long_page = 201
   \<and> length (fetched (main (\<lambda>v. Some (PyDict [(''temperature'', PyInt 21), (''humidity'', PyInt 40), (''soil'', PyInt 7)]))
        (\<lambda>n ps. Some ex_long_page) (Some ''2025-11-01T00:00:00Z'') Map.empty)) = 1
   \<and> snd (download_new_data (\<lambda>n ps. Some ex_long_page) ''2025-11-01T00:00:00Z'') = ex_long_page
   \<and> length (writes (\<lambda>v. Some (PyDict [(''temperature'', PyInt 21), (''humidity'', PyInt 40), (''soil'', PyInt 7)]))
        (snd (download_new_data (\<lambda>n ps. Some ex_long_page) ''2025-11-01T00:00:00Z''))) = 201
   \<and> outcome (main (\<lambda>v. Some (PyDict [(''temperature'', PyInt 21), (''humidity'', PyInt 40), (''soil'', PyInt 7)]))
        (\<lambda>n ps. Some ex_long_page) (Some ''2025-11-01T00:00:00Z'') Map.empty) = Inr 201
   \<and> card (dom (db (main (\<lambda>v. Some (PyDict [(''temperature'', PyInt 21), (''humidity'', PyInt 40), (''soil'', PyInt 7)]))
        (\<lambda>n ps. Some ex_long_page) (Some ''2025-11-01T00:00:00Z'') Map.empty))) = 201"
proof -
  let ?loads = "\<lambda>v. Some (PyDict [(''temperature'', PyInt 21), (''humidity'', PyInt 40), (''soil'', PyInt 7)])"
  let ?src = "\<lambda>(n::nat) (ps::params). Some ex_long_page"
  let ?T = "''2025-11-01T00:00:00Z''"
  have len: "length ex_long_page = 201" by simp
  have newer: "\<forall>s\<in>set ex_long_page. ?T < created_at s" by auto
  have dec: "\<forall>s\<in>set ex_long_page. decodes ?loads s"
    by (simp add: decodes_def has_field_def)
  have new: "snd (download_new_data ?src ?T) = ex_long_page"
    using newer
    by (simp add: download_new_data_def fetch_batch_def Let_def scan_new_takeWhile
        takeWhile_eq_all_conv del: upt_Suc map_map rev_map)
  have log: "length (fst (download_new_data ?src ?T)) = 1"
    by (simp add: download_new_data_def fetch_batch_def Let_def)
  have wr: "length (writes ?loads ex_long_page) = 201"
    using arg_cong [OF writes_all [OF dec], of length] len by (simp only: length_map)
  have out: "snd (save_loop ?loads Map.empty 0 ex_long_page) = Inr 201"
    using save_loop_count [OF dec, of Map.empty 0] len by (simp only: add_0)
  have inj: "inj_on (\<lambda>s. timestamp_key (created_at s)) (set ex_long_page)"
    by (auto simp: inj_on_def timestamp_key_def replace_def)
  have dm: "dom (fst (save_loop ?loads Map.empty 0 ex_long_page))
              = (\<lambda>s. timestamp_key (created_at s)) ` set ex_long_page"
    using save_loop_dom [OF dec, of Map.empty 0] by simp
  have dist: "distinct ex_long_page"
    by (simp add: distinct_map inj_on_def)
  have "card (dom (fst (save_loop ?loads Map.empty 0 ex_long_page))) = card (set ex_long_page)"
    unfolding dm using inj by (rule card_image)
  also have "\<dots> = 201" using distinct_card [OF dist] len by simp
  finally have cd: "card (dom (fst (save_loop ?loads Map.empty 0 ex_long_page))) = 201" .
  have T: "?T \<noteq> []" by simp
  show ?thesis
    using len log
    unfolding main_mode_b [OF T] new save_to_firebase_def
    by (simp only: wr out cd new run_result.simps fst_conv snd_conv simp_thms)
qed

section \<open>Persistence\<close>

text \<open>
  C3. Running the full backfill with its persistence (\<open>main\<close> on the branch taken when no
  latest timestamp is found) a second time, on the database the first run left and against
  the same source, leaves the database as the first run left it: same keys, same values.
  The second run also makes the same requests and ends the same way. Each record is written
  under \<open>timestamp_key\<close> of its \<open>created_at\<close>, and a write replaces what the key held.
\<close>

theorem C3_mode_a_idempotent:
  "main loads src None (db (main loads src None ref)) = main loads src None ref
   \<and> dom (db (main loads src None (db (main loads src None ref)))) = dom (db (main loads src None ref))"
proof -
  have "main loads src None (db (main loads src None ref)) = main loads src None ref"
    by (simp add: main_mode_a save_to_firebase_twice)
  then show ?thesis by simp
qed

text \<open>
  C8. When the samples before \<open>bad\<close> in the list decode and \<open>bad\<close> does not (its \<open>value\<close>
  does not parse, or the parsed value lacks one of temperature, humidity, soil),
  \<open>save_to_firebase\<close> ends with the exception raised for \<open>bad\<close>, not with a count; the
  database holds the writes for the samples before \<open>bad\<close> and no write is made for \<open>bad\<close>
  or for any sample after it. \<open>main\<close> does not catch the exception: in either mode the run
  ends with it.
\<close>

theorem C8_decode_failure_aborts:
  assumes "\<forall>s\<in>set pre. decodes loads s"
    and "\<not> decodes loads bad"
  shows "\<exists>e. build_record loads bad = Inl e
       \<and> save_to_firebase loads ref (pre @ bad # post)
           = (fst (save_to_firebase loads ref pre), Inl e)
       \<and> snd (save_to_firebase loads ref pre) = Inr (length pre)
       \<and> writes loads (pre @ bad # post) = writes loads pre
       \<and> map fst (writes loads pre) = map (\<lambda>s. timestamp_key (created_at s)) pre
       \<and> (snd (download_all_data src) = pre @ bad # post \<longrightarrow>
            outcome (main loads src None ref) = Inl e
          \<and> db (main loads src None ref) = fst (save_to_firebase loads ref pre))
       \<and> (T \<noteq> [] \<and> snd (download_new_data src T) = pre @ bad # post \<longrightarrow>
            outcome (main loads src (Some T) ref) = Inl e
          \<and> db (main loads src (Some T) ref) = fst (save_to_firebase loads ref pre))"
proof -
  from assms(2) obtain e where e: "build_record loads bad = Inl e"
    using build_record_Inl_iff [of loads bad] by blast
  have cnt: "snd (save_loop loads ref 0 pre) = Inr (length pre)"
    using save_loop_count [OF assms(1), of ref 0] by simp
  have sv: "save_to_firebase loads ref (pre @ bad # post)
              = (fst (save_to_firebase loads ref pre), Inl e)"
    using cnt e
    by (cases "save_loop loads ref 0 pre")
       (simp add: save_to_firebase_def save_loop_append)
  have wr: "writes loads (xs @ bad # post) = writes loads xs" if "\<forall>s\<in>set xs. decodes loads s" for xs
    using that
  proof (induction xs)
    case Nil
    show ?case using e by simp
  next
    case (Cons x xs)
    from Cons.prems have "decodes loads x" by simp
    then obtain kr where "build_record loads x = Inr kr"
      using build_record_Inr_iff [of loads x] by blast
    with Cons show ?case by simp
  qed
  show ?thesis
    using e sv cnt wr [OF assms(1)] writes_all [OF assms(1)]
    by (auto simp: main_mode_a main_mode_b save_to_firebase_def)
qed

theorem C8_decode_failure_aborts_witness:
  "decodes (\<lambda>v. if v = ''ok'' then Some (PyDict [(''temperature'', PyInt 21), (''humidity'', PyInt 40), (''soil'', PyInt 7)]) else None)
      \<lparr>created_at = ''2025-11-01T00:00:06Z'', value_str = ''ok''\<rparr>
   \<and> \<not> decodes (\<lambda>v. if v = ''ok'' then Some (PyDict [(''temperature'', PyInt 21), (''humidity'', PyInt 40), (''soil'', PyInt 7)]) else None)
         \<lparr>created_at = ''2025-11-01T00:00:05Z'', value_str = ''{''\<rparr>
   \<and> save_to_firebase (\<lambda>v. if v = ''ok'' then Some (PyDict [(''temperature'', PyInt 21), (''humidity'', PyInt 40), (''soil'', PyInt 7)]) else None)
         Map.empty
         ([\<lparr>created_at = ''2025-11-01T00:00:06Z'', value_str = ''ok''\<rparr>]
          @ \<lparr>created_at = ''2025-11-01T00:00:05Z'', value_str = ''{''\<rparr>
          # [\<lparr>created_at = ''2025-11-01T00:00:04Z'', value_str = ''ok''\<rparr>])
       = (fst (save_to_firebase (\<lambda>v. if v = ''ok'' then Some (PyDict [(''temperature'', PyInt 21), (''humidity'', PyInt 40), (''soil'', PyInt 7)]) else None)
                Map.empty [\<lparr>created_at = ''2025-11-01T00:00:06Z'', value_str = ''ok''\<rparr>]),
          Inl JSONDecodeError)"
  using C8_decode_failure_aborts
    [of "[\<lparr>created_at = ''2025-11-01T00:00:06Z'', value_str = ''ok''\<rparr>]"
        "\<lambda>v. if v = ''ok'' then Some (PyDict [(''temperature'', PyInt 21), (''humidity'', PyInt 40), (''soil'', PyInt 7)]) else None"
        "\<lparr>created_at = ''2025-11-01T00:00:05Z'', value_str = ''{''\<rparr>"
        Map.empty
        "[\<lparr>created_at = ''2025-11-01T00:00:04Z'', value_str = ''ok''\<rparr>]"]
  by (auto simp: decodes_def has_field_def build_record_def)

section \<open>Facts about the loop of download_all_data\<close>

lemma filter_length_eq: "\<not> length (filter P xs) < length xs \<Longrightarrow> filter P xs = xs"
proof -
  assume "\<not> length (filter P xs) < length xs"
  moreover have "length (filter P xs) \<le> length xs" by (rule length_filter_le)
  ultimately have "length (filter P xs) = length xs" by linarith
  then show ?thesis by (metis filter_True length_filter_less less_irrefl)
qed

lemma EARLIEST_nonempty: "c \<le> EARLIEST_DATE \<or> c \<noteq> []"
  by (cases c) (simp_all add: EARLIEST_DATE_def)

lemma fetch_batch_paged:
  "\<not> c \<le> EARLIEST_DATE \<Longrightarrow>
   fetch_batch src log (Some c) = (log @ [(paged c, src (length log) (paged c))], src (length log) (paged c))"
  using EARLIEST_nonempty [of c] by (simp add: fetch_batch_def paged_def Let_def)

lemma loop_body_Inr:
  assumes "loop_body src st = Inr st'"
  shows "all_data st \<noteq> [] \<and> EARLIEST_DATE < cursor st \<and> batch_count st < 1000
       \<and> (\<exists>d. src (length (requests st)) (paged (cursor st)) = Some d \<and> d \<noteq> []
              \<and> (\<forall>s\<in>set d. EARLIEST_DATE \<le> created_at s \<and> created_at s < cursor st)
              \<and> st' = \<lparr>all_data = all_data st @ d,
                       previous_oldest = Some (cursor st),
                       batch_count = batch_count st + 1,
                       stuck_count = (if previous_oldest st = Some (cursor st) then stuck_count st + 1 else 0),
                       requests = requests st @ [(paged (cursor st), Some d)]\<rparr>)"
proof -
  let ?c = "cursor st"
  from assms have ne: "all_data st \<noteq> []"
    by (auto simp: loop_body_def)
  from assms ne have fl: "\<not> ?c \<le> EARLIEST_DATE"
    by (auto simp: loop_body_def cursor_def Let_def split: if_splits)
  obtain d where d: "src (length (requests st)) (paged ?c) = Some d" "d \<noteq> []"
    using assms ne fl fetch_batch_paged [OF fl, of src "requests st"]
    by (auto simp: loop_body_def cursor_def Let_def split: if_splits option.splits)
  let ?f = "filter (\<lambda>s. EARLIEST_DATE \<le> created_at s \<and> created_at s < ?c) d"
  from assms ne fl d fetch_batch_paged [OF fl, of src "requests st"]
  have nl: "\<not> length ?f < length d"
    by (auto simp: loop_body_def cursor_def Let_def split: if_splits)
  then have feq: "?f = d" by (rule filter_length_eq)
  then have all: "\<forall>s\<in>set d. EARLIEST_DATE \<le> created_at s \<and> created_at s < ?c"
    by (metis (mono_tags, lifting) filter_id_conv)
  from assms ne fl d fetch_batch_paged [OF fl, of src "requests st"] feq
  have bc: "batch_count st < 1000"
    and st': "st' = \<lparr>all_data = all_data st @ d,
                       previous_oldest = Some ?c,
                       batch_count = batch_count st + 1,
                       stuck_count = (if previous_oldest st = Some ?c then stuck_count st + 1 else 0),
                       requests = requests st @ [(paged ?c, Some d)]\<rparr>"
    by (auto simp: loop_body_def cursor_def Let_def split: if_splits)
  from ne fl d all bc st' show ?thesis by auto
qed

lemma loop_body_Inl:
  assumes "loop_body src st = Inl (r, fin)"
  shows "(r = BreakEmpty \<and> all_data st = [] \<and> fin = st)
       \<or> (all_data st \<noteq> [] \<and> r = BreakStuck \<and> previous_oldest st = Some (cursor st)
            \<and> 1 \<le> stuck_count st \<and> fin = st\<lparr>stuck_count := stuck_count st + 1\<rparr>)
       \<or> (all_data st \<noteq> [] \<and> r \<noteq> BreakEmpty \<and> r \<noteq> BreakStuck
            \<and> stuck_count fin = (if previous_oldest st = Some (cursor st) then stuck_count st + 1 else 0)
            \<and> previous_oldest fin = Some (cursor st)
            \<and> ((r = BreakEarliest \<and> cursor st \<le> EARLIEST_DATE
                   \<and> all_data fin = filter (\<lambda>s. EARLIEST_DATE \<le> created_at s) (all_data st)
                   \<and> requests fin = requests st \<and> batch_count fin = batch_count st)
               \<or> (EARLIEST_DATE < cursor st
                   \<and> requests fin = requests st
                        @ [(paged (cursor st), src (length (requests st)) (paged (cursor st)))]
                   \<and> ((r = BreakNoMore
                          \<and> (src (length (requests st)) (paged (cursor st)) = None
                               \<or> src (length (requests st)) (paged (cursor st)) = Some [])
                          \<and> all_data fin = all_data st \<and> batch_count fin = batch_count st)
                      \<or> (\<exists>d. src (length (requests st)) (paged (cursor st)) = Some d \<and> d \<noteq> []
                             \<and> batch_count fin = batch_count st + 1
                             \<and> ((r = BreakNoNew
                                    \<and> filter (\<lambda>s. EARLIEST_DATE \<le> created_at s \<and> created_at s < cursor st) d = []
                                    \<and> all_data fin = all_data st)
                                \<or> (r = BreakPartial
                                    \<and> filter (\<lambda>s. EARLIEST_DATE \<le> created_at s \<and> created_at s < cursor st) d \<noteq> []
                                    \<and> length (filter (\<lambda>s. EARLIEST_DATE \<le> created_at s \<and> created_at s < cursor st) d) < length d
                                    \<and> all_data fin = all_data st
                                          @ filter (\<lambda>s. EARLIEST_DATE \<le> created_at s \<and> created_at s < cursor st) d)
                                \<or> (r = BreakSafety
                                    \<and> filter (\<lambda>s. EARLIEST_DATE \<le> created_at s \<and> created_at s < cursor st) d = d
                                    \<and> all_data fin = all_data st @ d
                                    \<and> 1000 \<le> batch_count st)))))))"
proof (cases "all_data st = []")
  case True
  with assms show ?thesis by (auto simp: loop_body_def)
next
  case ne: False
  show ?thesis
  proof (cases "previous_oldest st = Some (cursor st) \<and> 2 \<le> stuck_count st + 1")
    case True
    with assms ne show ?thesis
      by (auto simp: loop_body_def cursor_def Let_def)
  next
    case ns: False
    show ?thesis
    proof (cases "cursor st \<le> EARLIEST_DATE")
      case True
      with assms ne ns show ?thesis
        by (auto simp: loop_body_def cursor_def Let_def split: if_splits)
    next
      case fl: False
      note fb = fetch_batch_paged [OF fl, of src "requests st"]
      show ?thesis
      proof (cases "src (length (requests st)) (paged (cursor st))")
        case None
        with assms ne ns fl fb show ?thesis
          by (auto simp: loop_body_def cursor_def Let_def split: if_splits)
      next
        case (Some d)
        show ?thesis
        proof (cases "d = []")
          case True
          with Some assms ne ns fl fb show ?thesis
            by (auto simp: loop_body_def cursor_def Let_def split: if_splits)
        next
          case dne: False
          let ?f = "filter (\<lambda>s. EARLIEST_DATE \<le> created_at s \<and> created_at s < cursor st) d"
          have feq: "\<not> length ?f < length d \<Longrightarrow> ?f = d"
            by (rule filter_length_eq)
          from dne Some assms ne ns fl fb feq show ?thesis
            by (auto simp: loop_body_def cursor_def Let_def split: if_splits)
        qed
      qed
    qed
  qed
qed

lemma dl_loop_unfold:
  "dl_loop src st = (case loop_body src st of Inl r \<Rightarrow> r | Inr st' \<Rightarrow> dl_loop src st')"
  by (rule dl_loop.simps)

lemma dl_loop_rule:
  assumes "I st"
    and "\<And>s s'. I s \<Longrightarrow> loop_body src s = Inr s' \<Longrightarrow> I s'"
    and "\<And>s r fin. I s \<Longrightarrow> loop_body src s = Inl (r, fin) \<Longrightarrow> Q r fin"
  shows "Q (fst (dl_loop src st)) (snd (dl_loop src st))"
  using assms
proof (induction src st rule: dl_loop.induct)
  case (1 src st)
  show ?case
  proof (cases "loop_body src st")
    case (Inl rf)
    obtain r fin where rf: "rf = (r, fin)" by (cases rf)
    have "dl_loop src st = (r, fin)"
      using Inl rf by (subst dl_loop_unfold) simp
    moreover have "Q r fin"
      using "1.prems"(1) Inl rf by (intro "1.prems"(3) [of st r fin]) simp_all
    ultimately show ?thesis by simp
  next
    case (Inr st')
    have eq: "dl_loop src st = dl_loop src st'"
      using Inr by (subst dl_loop_unfold) simp
    have "I st'" by (rule "1.prems"(2) [OF "1.prems"(1) Inr])
    from "1.IH" [OF Inr this "1.prems"(2,3)] eq show ?thesis by simp
  qed
qed

lemma state_at_dl_loop:
  "state_at src n st = Some st' \<Longrightarrow> dl_loop src st = dl_loop src st'"
proof (induction n arbitrary: st)
  case 0
  then show ?case by simp
next
  case (Suc n)
  then obtain st1 where 1: "loop_body src st = Inr st1" "state_at src n st1 = Some st'"
    by (auto split: sum.splits)
  have "dl_loop src st = dl_loop src st1"
    using 1(1) by (subst dl_loop_unfold) simp
  with Suc.IH [OF 1(2)] show ?case by simp
qed

lemma state_at_invariant:
  assumes "state_at src n st = Some st'" and "I st"
    and step: "\<And>s s'. I s \<Longrightarrow> loop_body src s = Inr s' \<Longrightarrow> I s'"
  shows "I st'"
  using assms(1,2)
proof (induction n arbitrary: st)
  case 0
  then show ?case by simp
next
  case (Suc n)
  then obtain st1 where 1: "loop_body src st = Inr st1" "state_at src n st1 = Some st'"
    by (auto split: sum.splits)
  from step [OF Suc.prems(2) 1(1)] Suc.IH [OF 1(2)] show ?case by simp
qed

lemma never_stuck_initial: "never_stuck (initial_state log d)"
  by (simp add: never_stuck_def initial_state_def)

lemma never_stuck_neq: "never_stuck st \<Longrightarrow> previous_oldest st \<noteq> Some (cursor st)"
  by (auto simp: never_stuck_def split: option.splits)

lemma never_stuck_step:
  assumes "never_stuck st" and "loop_body src st = Inr st'"
  shows "never_stuck st' \<and> cursor st' < cursor st"
proof -
  from loop_body_Inr [OF assms(2)] obtain d where
    d: "d \<noteq> []" "\<forall>s\<in>set d. EARLIEST_DATE \<le> created_at s \<and> created_at s < cursor st"
    and st': "st' = \<lparr>all_data = all_data st @ d,
                       previous_oldest = Some (cursor st),
                       batch_count = batch_count st + 1,
                       stuck_count = (if previous_oldest st = Some (cursor st) then stuck_count st + 1 else 0),
                       requests = requests st @ [(paged (cursor st), Some d)]\<rparr>"
    by blast
  have "cursor st' = created_at (last d)"
    using d(1) st' by (simp add: cursor_def)
  moreover have "last d \<in> set d" using d(1) by simp
  ultimately have lt: "cursor st' < cursor st" using d(2) by simp
  have "stuck_count st' = 0"
    using never_stuck_neq [OF assms(1)] st' by simp
  with lt st' d(1) show ?thesis
    by (simp add: never_stuck_def)
qed

lemma never_stuck_final:
  assumes "never_stuck st" and "loop_body src st = Inl (r, fin)"
  shows "r \<noteq> BreakStuck \<and> stuck_count fin = 0"
  using loop_body_Inl [OF assms(2)] never_stuck_neq [OF assms(1)] assms(1)
  by (auto simp: never_stuck_def)

lemma loop_body_Inl_requests:
  assumes "loop_body src st = Inl (r, fin)"
  shows "requests fin = requests st \<or> (\<exists>e. requests fin = requests st @ [e])"
  using loop_body_Inl [OF assms] by auto

lemma loop_body_Inl_batch_count:
  assumes "loop_body src st = Inl (r, fin)"
  shows "batch_count fin \<le> batch_count st + 1"
  using loop_body_Inl [OF assms] by auto

lemma download_all_data_None:
  "src 0 newest = None \<Longrightarrow> download_all_data src = ([(newest, None)], [])"
  by (simp add: download_all_data_def fetch_batch_def newest_def Let_def)

lemma download_all_data_Some:
  "src 0 newest = Some d \<Longrightarrow>
   download_all_data src
     = (requests (snd (dl_loop src (initial_state [(newest, Some d)] d))),
        all_data (snd (dl_loop src (initial_state [(newest, Some d)] d))))"
  by (simp add: download_all_data_def fetch_batch_def newest_def Let_def split: prod.splits)

lemma descending_last:
  assumes "descending d" and "x \<in> set d"
  shows "created_at (last d) \<le> created_at x"
proof -
  from assms(2) have ne: "d \<noteq> []" by auto
  then have d: "d = butlast d @ [last d]" by simp
  from assms(1) have "sorted_wrt (\<lambda>a b. created_at b \<le> created_at a) (butlast d @ [last d])"
    using d by (simp add: descending_def)
  then have "\<forall>a\<in>set (butlast d). created_at (last d) \<le> created_at a"
    by (simp add: sorted_wrt_append)
  moreover from assms(2) d have "x \<in> set (butlast d) \<or> x = last d"
    by (metis Un_iff empty_iff empty_set insert_iff list.simps(15) set_append)
  ultimately show ?thesis by auto
qed

lemma floor_inv_step:
  assumes "floor_inv st" and "loop_body src st = Inr st'"
  shows "floor_inv st'"
proof -
  from loop_body_Inr [OF assms(2)] obtain d where
    fl: "EARLIEST_DATE < cursor st"
    and d: "\<forall>s\<in>set d. EARLIEST_DATE \<le> created_at s \<and> created_at s < cursor st"
    and st': "all_data st' = all_data st @ d"
    by auto
  have "EARLIEST_DATE \<le> created_at x" if "x \<in> set (all_data st)" for x
    using assms(1) fl that by (auto simp: floor_inv_def)
  with d st' have "\<forall>x\<in>set (all_data st'). EARLIEST_DATE \<le> created_at x"
    by auto
  with never_stuck_step [OF _ assms(2)] assms(1) show ?thesis
    by (simp add: floor_inv_def)
qed

lemma floor_inv_final:
  assumes "floor_inv st" and "loop_body src st = Inl (r, fin)"
  shows "\<forall>x\<in>set (all_data fin). EARLIEST_DATE \<le> created_at x"
proof -
  from assms(1) have ns: "never_stuck st"
    and el: "\<forall>x\<in>set (all_data st). EARLIEST_DATE \<le> created_at x \<or> cursor st \<le> created_at x"
    by (simp_all add: floor_inv_def)
  have ok: "\<forall>x\<in>set (all_data st). EARLIEST_DATE \<le> created_at x" if "EARLIEST_DATE < cursor st"
    using el that by auto
  from loop_body_Inl [OF assms(2)] never_stuck_neq [OF ns] ok
  show ?thesis by (elim disjE conjE exE) (auto simp: filter_id_conv)
qed

lemma download_all_data_floor:
  assumes "\<forall>page. src 0 newest = Some page \<longrightarrow> descending page"
  shows "\<forall>x\<in>set (snd (download_all_data src)). EARLIEST_DATE \<le> created_at x"
proof (cases "src 0 newest")
  case None
  then show ?thesis by (simp add: download_all_data_None)
next
  case (Some d)
  let ?init = "initial_state [(newest, Some d)] d"
  from assms Some have desc: "descending d" by simp
  have "\<forall>x\<in>set (all_data (snd (dl_loop src ?init))). EARLIEST_DATE \<le> created_at x"
  proof (rule dl_loop_rule [where I = floor_inv and Q = "\<lambda>r fin. \<forall>x\<in>set (all_data fin). EARLIEST_DATE \<le> created_at x"])
    show "floor_inv ?init"
      using descending_last [OF desc] never_stuck_initial [of "[(newest, Some d)]" d]
      by (simp add: floor_inv_def) (simp add: initial_state_def cursor_def)
    show "floor_inv s'" if "floor_inv s" "loop_body src s = Inr s'" for s s'
      using that by (rule floor_inv_step)
    show "\<forall>x\<in>set (all_data fin). EARLIEST_DATE \<le> created_at x"
      if "floor_inv s" "loop_body src s = Inl (r, fin)" for s r fin
      using that by (rule floor_inv_final)
  qed
  then show ?thesis by (simp add: download_all_data_Some [of src d, OF Some])
qed

lemma state_at_never_stuck:
  assumes "state_at src n (initial_state log d) = Some st"
  shows "never_stuck st"
  using assms never_stuck_initial
proof (rule state_at_invariant)
  show "never_stuck s'" if "never_stuck s" "loop_body src s = Inr s'" for s s'
    using never_stuck_step [OF that] by simp
qed

lemma state_at_prefix:
  assumes "state_at src n st0 = Some st"
  shows "\<exists>more. all_data st = all_data st0 @ more"
  using assms
proof (rule state_at_invariant [where I = "\<lambda>s. \<exists>more. all_data s = all_data st0 @ more"])
  show "\<exists>more. all_data st0 = all_data st0 @ more" by simp
  show "\<exists>more. all_data s' = all_data st0 @ more"
    if "\<exists>more. all_data s = all_data st0 @ more" "loop_body src s = Inr s'" for s s'
    using that(1) loop_body_Inr [OF that(2)] by auto
qed


lemma no_repeat_snoc_last:
  assumes "no_repeat log" and "Suc j < length (log @ [e])"
    and "same_oldest (snd ((log @ [e]) ! j)) (snd ((log @ [e]) ! Suc j))"
  shows "length (log @ [e]) = Suc (Suc j)"
proof (rule ccontr)
  assume "length (log @ [e]) \<noteq> Suc (Suc j)"
  with assms(2) have lt: "Suc j < length log" by simp
  then have "(log @ [e]) ! j = log ! j" "(log @ [e]) ! Suc j = log ! Suc j"
    by (simp_all add: nth_append)
  with assms(1,3) lt show False by (simp add: no_repeat_def)
qed

lemma no_repeat_snoc:
  assumes "no_repeat log" and "log \<noteq> []" and "\<not> same_oldest (snd (last log)) (snd e)"
  shows "no_repeat (log @ [e])"
  unfolding no_repeat_def
proof (intro allI impI)
  fix j
  assume j: "Suc j < length (log @ [e])"
  show "\<not> same_oldest (snd ((log @ [e]) ! j)) (snd ((log @ [e]) ! Suc j))"
  proof (cases "Suc j < length log")
    case True
    then have "(log @ [e]) ! j = log ! j" "(log @ [e]) ! Suc j = log ! Suc j"
      by (simp_all add: nth_append)
    with assms(1) True show ?thesis by (simp add: no_repeat_def)
  next
    case False
    with j have eq: "Suc j = length log" by simp
    then have "(log @ [e]) ! Suc j = e" by (simp add: nth_append)
    moreover have "(log @ [e]) ! j = last log"
    proof -
      from eq have j': "j = length log - 1" by simp
      from eq have "(log @ [e]) ! j = log ! j" by (simp add: nth_append)
      also have "\<dots> = last log" using assms(2) j' by (simp add: last_conv_nth)
      finally show ?thesis .
    qed
    ultimately show ?thesis using assms(3) by simp
  qed
qed

lemma log_inv_step:
  assumes "log_inv st" and "loop_body src st = Inr st'"
  shows "log_inv st'"
proof -
  from loop_body_Inr [OF assms(2)] obtain d where
    ne: "all_data st \<noteq> []" and dne: "d \<noteq> []"
    and d: "\<forall>s\<in>set d. EARLIEST_DATE \<le> created_at s \<and> created_at s < cursor st"
    and ad: "all_data st' = all_data st @ d"
    and rq: "requests st' = requests st @ [(paged (cursor st), Some d)]"
    by auto
  from assms(1) ne obtain dl where
    nr: "no_repeat (requests st)" and rne: "requests st \<noteq> []"
    and dl: "snd (last (requests st)) = Some dl" "created_at (last dl) = cursor st"
    by (auto simp: log_inv_def)
  from dne d have lt: "created_at (last d) < cursor st" by simp
  then have "\<not> same_oldest (snd (last (requests st))) (snd (paged (cursor st), Some d))"
    using dl by (auto simp: same_oldest_def)
  with nr rne have "no_repeat (requests st')"
    unfolding rq by (rule no_repeat_snoc)
  moreover have "cursor st' = created_at (last d)"
    using dne ad by (simp add: cursor_def)
  ultimately show ?thesis
    using dne rq by (simp add: log_inv_def)
qed

lemma log_inv_final:
  assumes "log_inv st" and "loop_body src st = Inl (r, fin)"
    and "Suc j < length (requests fin)"
    and "same_oldest (snd (requests fin ! j)) (snd (requests fin ! Suc j))"
  shows "length (requests fin) = Suc (Suc j)"
proof -
  from assms(1) have nr: "no_repeat (requests st)" by (simp add: log_inv_def)
  from loop_body_Inl_requests [OF assms(2)] show ?thesis
  proof
    assume "requests fin = requests st"
    with nr assms(3,4) show ?thesis by (simp add: no_repeat_def)
  next
    assume "\<exists>e. requests fin = requests st @ [e]"
    then obtain e where "requests fin = requests st @ [e]" ..
    with no_repeat_snoc_last [OF nr, of j e] assms(3,4) show ?thesis by simp
  qed
qed


section \<open>Full backfill\<close>

text \<open>
  C9. Let \<open>st\<close> be the state at the start of any pass of a full backfill. A pass that goes
  on to the next one ends with a cursor strictly below the cursor it started with, since
  every record it appended is older than that cursor. So the cursor is never equal to
  \<open>previous_oldest\<close>, the stuck counter is 0 at the start of every pass and when the loop
  is left, and the loop is never left through the \<open>break\<close> of the stuck check.
\<close>

theorem C9_cursor_decreases:
  assumes "state_at src n (initial_state log d) = Some st"
  shows "stuck_count st = 0
       \<and> previous_oldest st \<noteq> Some (cursor st)
       \<and> (\<forall>st'. loop_body src st = Inr st' \<longrightarrow> cursor st' < cursor st \<and> stuck_count st' = 0)
       \<and> (\<forall>r fin. loop_body src st = Inl (r, fin) \<longrightarrow> r \<noteq> BreakStuck \<and> stuck_count fin = 0)
       \<and> fst (dl_loop src (initial_state log d)) \<noteq> BreakStuck
       \<and> stuck_count (snd (dl_loop src (initial_state log d))) = 0"
proof -
  have ns: "never_stuck st"
    using assms never_stuck_initial
  proof (rule state_at_invariant)
    show "never_stuck s'" if "never_stuck s" "loop_body src s = Inr s'" for s s'
      using never_stuck_step [OF that] by simp
  qed
  have fin: "fst (dl_loop src (initial_state log d)) \<noteq> BreakStuck
           \<and> stuck_count (snd (dl_loop src (initial_state log d))) = 0"
  proof (rule dl_loop_rule [where I = never_stuck and Q = "\<lambda>r fin. r \<noteq> BreakStuck \<and> stuck_count fin = 0"])
    show "never_stuck (initial_state log d)" by (rule never_stuck_initial)
    show "never_stuck s'" if "never_stuck s" "loop_body src s = Inr s'" for s s'
      using never_stuck_step [OF that] by simp
    show "r \<noteq> BreakStuck \<and> stuck_count fin = 0"
      if "never_stuck s" "loop_body src s = Inl (r, fin)" for s r fin
      using never_stuck_final [OF that] .
  qed
  from ns have "stuck_count st = 0" by (simp add: never_stuck_def)
  with ns fin never_stuck_neq [OF ns] show ?thesis
    using never_stuck_step [OF ns] never_stuck_final [OF ns]
    by (auto simp: never_stuck_def)
qed

theorem C9_cursor_decreases_witness:
  "state_at ex_source (Suc 0) (initial_state [(newest, Some [ex_A])] [ex_A]) = Some ex_state
   \<and> stuck_count ex_state = 0
   \<and> previous_oldest ex_state \<noteq> Some (cursor ex_state)
   \<and> fst (dl_loop ex_source (initial_state [(newest, Some [ex_A])] [ex_A])) \<noteq> BreakStuck"
  using C9_cursor_decreases [of ex_source "Suc 0" "[(newest, Some [ex_A])]" "[ex_A]" ex_state]
  by (simp add: loop_body_def fetch_batch_def Let_def initial_state_def EARLIEST_DATE_def paged_def)

text \<open>
  C6. The loop of \<open>download_all_data\<close> ends whatever the source answers (\<open>dl_loop\<close> is a
  total function, its termination proved from \<open>batch_count\<close>): a pass that does not break
  has raised \<open>batch_count\<close> by one and found it at most 1000, so after the first fetch at
  most 1000 fetches are made, 1001 in all, and \<open>batch_count\<close> ends at 1001 at most.
\<close>

theorem C6_loop_bounded:
  "length (fst (download_all_data src)) \<le> 1001
   \<and> length (requests (snd (dl_loop src (initial_state log d)))) \<le> length log + 1000
   \<and> batch_count (snd (dl_loop src (initial_state log d))) \<le> 1001
   \<and> (\<forall>st st'. loop_body src st = Inr st' \<longrightarrow>
         batch_count st' = batch_count st + 1 \<and> batch_count st' \<le> 1000)"
proof -
  have bound: "length (requests (snd (dl_loop src (initial_state lg dd)))) \<le> length lg + 1000
             \<and> batch_count (snd (dl_loop src (initial_state lg dd))) \<le> 1001" for lg dd
  proof (rule dl_loop_rule
      [where I = "\<lambda>s. length (requests s) + 1 = length lg + batch_count s \<and> batch_count s \<le> 1000"
         and Q = "\<lambda>r fin. length (requests fin) \<le> length lg + 1000 \<and> batch_count fin \<le> 1001"])
    show "length (requests (initial_state lg dd)) + 1 = length lg + batch_count (initial_state lg dd)
        \<and> batch_count (initial_state lg dd) \<le> 1000"
      by (simp add: initial_state_def)
    show "length (requests s') + 1 = length lg + batch_count s' \<and> batch_count s' \<le> 1000"
      if "length (requests s) + 1 = length lg + batch_count s \<and> batch_count s \<le> 1000"
        "loop_body src s = Inr s'" for s s'
      using that(1) loop_body_Inr [OF that(2)] by auto
    show "length (requests fin) \<le> length lg + 1000 \<and> batch_count fin \<le> 1001"
      if "length (requests s) + 1 = length lg + batch_count s \<and> batch_count s \<le> 1000"
        "loop_body src s = Inl (r, fin)" for s r fin
      using that(1) loop_body_Inl_requests [OF that(2)] loop_body_Inl_batch_count [OF that(2)]
      by auto
  qed
  have dl: "length (fst (download_all_data src)) \<le> 1001"
  proof (cases "src 0 \<lparr>feed = FEED, limit = BATCH_LIMIT, before_created_at = None\<rparr>")
    case None
    then show ?thesis
      by (simp add: download_all_data_def fetch_batch_def Let_def)
  next
    case (Some dd)
    let ?lg = "[(\<lparr>feed = FEED, limit = BATCH_LIMIT, before_created_at = None\<rparr>, Some dd)]"
    have "fst (download_all_data src) = requests (snd (dl_loop src (initial_state ?lg dd)))"
      using Some by (simp add: download_all_data_def fetch_batch_def Let_def split: prod.splits)
    with bound [of ?lg dd] show ?thesis by simp
  qed
  have st: "batch_count st' = batch_count st + 1 \<and> batch_count st' \<le> 1000"
    if "loop_body src st = Inr st'" for st st'
    using loop_body_Inr [OF that] by auto
  from bound [of log d] dl st show ?thesis by blast
qed

theorem C6_loop_bounded_witness:
  "loop_body ex_source (initial_state [(newest, Some [ex_A])] [ex_A]) = Inr ex_state
   \<and> batch_count ex_state = batch_count (initial_state [(newest, Some [ex_A])] [ex_A]) + 1
   \<and> batch_count ex_state \<le> 1000
   \<and> length (fst (download_all_data ex_source)) \<le> 1001"
proof -
  have body: "loop_body ex_source (initial_state [(newest, Some [ex_A])] [ex_A]) = Inr ex_state"
    by (simp add: loop_body_def fetch_batch_def Let_def initial_state_def EARLIEST_DATE_def paged_def)
  with C6_loop_bounded [of ex_source "[(newest, Some [ex_A])]" "[ex_A]"] show ?thesis
    by blast
qed

text \<open>
  C2. When the first page is ordered descending by \<open>created_at\<close> (as every page of the
  source is taken to be), every sample that \<open>download_all_data\<close> returns has
  \<open>created_at\<close> at or above \<open>EARLIEST_DATE\<close>, the samples of the first, unfiltered page
  included; and every entry of the database that a full backfill run changes holds a
  record with \<open>created_at\<close> at or above \<open>EARLIEST_DATE\<close>.
\<close>

theorem C2_date_floor:
  assumes "\<forall>page. src 0 newest = Some page \<longrightarrow> descending page"
  shows "(\<forall>x\<in>set (snd (download_all_data src)). EARLIEST_DATE \<le> created_at x)
       \<and> (\<forall>k. db (main loads src None ref) k \<noteq> ref k \<longrightarrow>
            (\<exists>r. db (main loads src None ref) k = Some r \<and> EARLIEST_DATE \<le> rec_created_at r))"
proof -
  note fl = download_all_data_floor [of src, OF assms]
  have "\<exists>r. db (main loads src None ref) k = Some r \<and> EARLIEST_DATE \<le> rec_created_at r"
    if "db (main loads src None ref) k \<noteq> ref k" for k
  proof -
    let ?xs = "snd (download_all_data src)"
    from that have "fst (save_loop loads ref 0 ?xs) k \<noteq> ref k"
      by (simp add: main_mode_a save_to_firebase_def)
    from save_loop_changed [OF this] obtain s r where
      s: "s \<in> set ?xs" "build_record loads s = Inr (k, r)" "fst (save_loop loads ref 0 ?xs) k = Some r"
      by blast
    from build_record_key [OF s(2)] s(1) fl have "EARLIEST_DATE \<le> rec_created_at r"
      by simp
    with s(3) show ?thesis
      by (simp add: main_mode_a save_to_firebase_def)
  qed
  with fl show ?thesis by blast
qed

theorem C2_date_floor_witness:
  "descending [ex_A, ex_old]
   \<and> snd (download_all_data (\<lambda>n ps. if n = 0 then Some [ex_A, ex_old] else None)) = [ex_A]
   \<and> EARLIEST_DATE \<le> created_at ex_A"
  using C2_date_floor [of "\<lambda>n ps. if n = 0 then Some [ex_A, ex_old] else None"]
  by (simp add: descending_def download_all_data_def loop_body_def fetch_batch_def Let_def
      initial_state_def EARLIEST_DATE_def)

text \<open>
  C7. Let \<open>st\<close> be the state at the start of a pass of a full backfill whose fetch (a
  fetch with a cursor) is answered without a \<open>data\<close> field or with an empty \<open>data\<close>
  array. The loop ends there, through the \<open>break\<close> of "No more data available", with
  the collected samples untouched: \<open>download_all_data\<close> returns all of them (the first
  page and everything appended since), and \<open>main\<close> goes on to save exactly that list;
  when its samples decode, one record per sample is written.
\<close>

theorem C7_empty_page_ends_normally:
  assumes "src 0 newest = Some d"
    and "state_at src n (initial_state [(newest, Some d)] d) = Some st"
    and "all_data st \<noteq> []"
    and "EARLIEST_DATE < cursor st"
    and "src (length (requests st)) (paged (cursor st)) = None
       \<or> src (length (requests st)) (paged (cursor st)) = Some []"
  shows "dl_loop src st
           = (BreakNoMore,
              st\<lparr>stuck_count := 0, previous_oldest := Some (cursor st),
                 requests := requests st
                   @ [(paged (cursor st), src (length (requests st)) (paged (cursor st)))]\<rparr>)
       \<and> download_all_data src
           = (requests st @ [(paged (cursor st), src (length (requests st)) (paged (cursor st)))],
              all_data st)
       \<and> (\<exists>more. all_data st = d @ more)
       \<and> db (main loads src None ref) = fst (save_to_firebase loads ref (all_data st))
       \<and> outcome (main loads src None ref) = snd (save_to_firebase loads ref (all_data st))
       \<and> ((\<forall>s\<in>set (all_data st). decodes loads s) \<longrightarrow>
            outcome (main loads src None ref) = Inr (length (all_data st))
          \<and> dom (db (main loads src None ref))
              = dom ref \<union> (\<lambda>s. timestamp_key (created_at s)) ` set (all_data st))"
proof -
  let ?init = "initial_state [(newest, Some d)] d"
  let ?resp = "src (length (requests st)) (paged (cursor st))"
  let ?fin = "st\<lparr>stuck_count := 0, previous_oldest := Some (cursor st),
                 requests := requests st @ [(paged (cursor st), ?resp)]\<rparr>"
  have ns: "never_stuck st" using assms(2) by (rule state_at_never_stuck)
  have body: "loop_body src st = Inl (BreakNoMore, ?fin)"
    using assms(3,4,5) never_stuck_neq [OF ns] fetch_batch_paged [of "cursor st" src "requests st"]
    by (auto simp: loop_body_def Let_def cursor_def)
  have "dl_loop src st = (BreakNoMore, ?fin)"
    using body by (subst dl_loop_unfold) simp
  moreover have "dl_loop src ?init = dl_loop src st"
    using assms(2) by (rule state_at_dl_loop)
  ultimately have run: "dl_loop src st = (BreakNoMore, ?fin)" "dl_loop src ?init = (BreakNoMore, ?fin)"
    by simp_all
  have dl: "download_all_data src = (requests st @ [(paged (cursor st), ?resp)], all_data st)"
    using run(2) by (simp add: download_all_data_Some [of src d, OF assms(1)])
  have pre: "\<exists>more. all_data st = d @ more"
    using state_at_prefix [OF assms(2)] by (simp add: initial_state_def)
  have dec: "snd (save_to_firebase loads ref (all_data st)) = Inr (length (all_data st))
           \<and> dom (fst (save_to_firebase loads ref (all_data st)))
               = dom ref \<union> (\<lambda>s. timestamp_key (created_at s)) ` set (all_data st)"
    if "\<forall>s\<in>set (all_data st). decodes loads s"
    using save_loop_count [OF that, of ref 0] save_loop_dom [OF that, of ref 0]
    by (simp add: save_to_firebase_def)
  from run(1) dl pre dec show ?thesis
    by (simp add: main_mode_a)
qed

theorem C7_empty_page_ends_normally_witness:
  "ex_source 0 newest = Some [ex_A]
   \<and> state_at ex_source (Suc 0) (initial_state [(newest, Some [ex_A])] [ex_A]) = Some ex_state
   \<and> EARLIEST_DATE < cursor ex_state
   \<and> ex_source (length (requests ex_state)) (paged (cursor ex_state)) = None
   \<and> snd (download_all_data ex_source) = [ex_A, ex_B]
   \<and> outcome (main (\<lambda>v. Some (PyDict [(''temperature'', PyInt 21), (''humidity'', PyInt 40), (''soil'', PyInt 7)]))
        ex_source None Map.empty) = Inr 2"
proof -
  let ?loads = "\<lambda>v. Some (PyDict [(''temperature'', PyInt 21), (''humidity'', PyInt 40), (''soil'', PyInt 7)])"
  have h1: "ex_source 0 newest = Some [ex_A]" by simp
  have h2: "state_at ex_source (Suc 0) (initial_state [(newest, Some [ex_A])] [ex_A]) = Some ex_state"
    by (simp add: loop_body_def fetch_batch_def Let_def initial_state_def EARLIEST_DATE_def paged_def)
  have h3: "all_data ex_state \<noteq> []" by simp
  have h4: "EARLIEST_DATE < cursor ex_state" by (simp add: cursor_def EARLIEST_DATE_def)
  have h5: "ex_source (length (requests ex_state)) (paged (cursor ex_state)) = None" by simp
  have dec: "\<forall>s\<in>set (all_data ex_state). decodes ?loads s"
    by (simp add: decodes_def has_field_def)
  note c7 = C7_empty_page_ends_normally [of ex_source "[ex_A]" "Suc 0" ex_state ?loads Map.empty,
      OF h1 h2 h3 h4 disjI1 [OF h5]]
  from c7 have "download_all_data ex_source
      = (requests ex_state
           @ [(paged (cursor ex_state), ex_source (length (requests ex_state)) (paged (cursor ex_state)))],
         all_data ex_state)"
    by blast
  then have dl: "snd (download_all_data ex_source) = [ex_A, ex_B]" by simp
  from c7 dec have "outcome (main ?loads ex_source None Map.empty) = Inr (length (all_data ex_state))"
    by blast
  then have "outcome (main ?loads ex_source None Map.empty) = Inr 2" by simp
  note dl this
  with h1 h2 h4 h5 show ?thesis by blast
qed




text \<open>
  C5. When two consecutive fetches of a full backfill (numbers \<open>j\<close> and \<open>j + 1\<close> in the
  log of requests, counted from 0; for two fetches with a cursor, \<open>j \<ge> 1\<close>) are answered
  with pages that have the same oldest timestamp, the run makes at most 2 more fetches
  after them. In fact it makes none: the second of the two pages has a record that is not
  older than the cursor, so the loop ends in that pass.
\<close>

theorem C5_repeated_oldest_terminates:
  assumes "Suc j < length (fst (download_all_data src))"
    and "same_oldest (snd (fst (download_all_data src) ! j)) (snd (fst (download_all_data src) ! Suc j))"
  shows "length (fst (download_all_data src)) \<le> Suc (Suc j) + 2
       \<and> length (fst (download_all_data src)) = Suc (Suc j)"
proof (cases "src 0 newest")
  case None
  with assms(1) show ?thesis by (simp add: download_all_data_None)
next
  case (Some d)
  let ?init = "initial_state [(newest, Some d)] d"
  have log: "fst (download_all_data src) = requests (snd (dl_loop src ?init))"
    by (simp add: download_all_data_Some [of src d, OF Some])
  have "\<forall>i. Suc i < length (requests (snd (dl_loop src ?init)))
            \<and> same_oldest (snd (requests (snd (dl_loop src ?init)) ! i))
                            (snd (requests (snd (dl_loop src ?init)) ! Suc i))
          \<longrightarrow> length (requests (snd (dl_loop src ?init))) = Suc (Suc i)"
  proof (rule dl_loop_rule
      [where I = log_inv
         and Q = "\<lambda>r fin. \<forall>i. Suc i < length (requests fin)
                      \<and> same_oldest (snd (requests fin ! i)) (snd (requests fin ! Suc i))
                    \<longrightarrow> length (requests fin) = Suc (Suc i)"])
    show "log_inv ?init"
      by (simp add: log_inv_def no_repeat_def initial_state_def cursor_def)
    show "log_inv s'" if "log_inv s" "loop_body src s = Inr s'" for s s'
      using that by (rule log_inv_step)
    show "\<forall>i. Suc i < length (requests fin)
              \<and> same_oldest (snd (requests fin ! i)) (snd (requests fin ! Suc i))
            \<longrightarrow> length (requests fin) = Suc (Suc i)"
      if "log_inv s" "loop_body src s = Inl (r, fin)" for s r fin
      using log_inv_final [OF that] by blast
  qed
  with assms log show ?thesis by simp
qed

theorem C5_repeated_oldest_terminates_witness:
  "fst (download_all_data (\<lambda>n ps. if n = 0 then Some [ex_A] else Some [ex_B]))
     = [(newest, Some [ex_A]), (paged ''2025-11-02T00:00:00Z'', Some [ex_B]),
        (paged ''2025-11-01T00:00:00Z'', Some [ex_B])]
   \<and> same_oldest (Some [ex_B]) (Some [ex_B])
   \<and> length (fst (download_all_data (\<lambda>n ps. if n = 0 then Some [ex_A] else Some [ex_B]))) = 3"
  using C5_repeated_oldest_terminates [of "Suc 0" "\<lambda>n ps. if n = 0 then Some [ex_A] else Some [ex_B]"]
  by (simp add: download_all_data_def loop_body_def fetch_batch_def Let_def initial_state_def
      EARLIEST_DATE_def paged_def newest_def same_oldest_def)

end
